theory Spec2Isabelle
  imports Main "HOL-Library.Word"
begin

section \<open>LCD-PushWheel: data model\<close>

text \<open>
  Shallow embedding of \<^verbatim>\<open>LCD-PushWheel.ino\<close>. Fixed-width C integers are words:
  \<^verbatim>\<open>uint8_t\<close> is \<open>8 word\<close>, \<^verbatim>\<open>unsigned int\<close> (the ADC reading) is \<open>16 word\<close> and
  \<^verbatim>\<open>uint32_t\<close> (values and \<^verbatim>\<open>millis()\<close> timestamps) is \<open>32 word\<close>, so that timer
  differences wrap around as they do on the board. The free-running clock \<^verbatim>\<open>millis()\<close>
  is a parameter \<open>now\<close> of every operation that reads it; one call sees one reading.
\<close>

type_synonym u8 = "8 word"
type_synonym u16 = "16 word"
type_synonym u32 = "32 word"

definition ANIMATION_FRAME_TIME :: u8 where
  "ANIMATION_FRAME_TIME = 50"

definition DISP_R :: u8 where
  "DISP_R = 1"

definition DISP_C :: u8 where
  "DISP_C = 0"

definition CHAR_ROWS :: u8 where
  "CHAR_ROWS = 8"

definition MAX_DIGITS :: u8 where
  "MAX_DIGITS = 8"

record digitData_t =
  timeLastFrame :: u32
  prev :: u8
  curr :: u8
  index :: u8
  charMap :: "u8 list"

definition digitsMap :: "u8 list list" where
  "digitsMap =
    [ [0x0e, 0x11, 0x13, 0x15, 0x19, 0x11, 0x0e, 0x00],
      [0x04, 0x0c, 0x04, 0x04, 0x04, 0x04, 0x0e, 0x00],
      [0x0e, 0x11, 0x01, 0x02, 0x04, 0x08, 0x1f, 0x00],
      [0x1f, 0x02, 0x04, 0x02, 0x01, 0x11, 0x0e, 0x00],
      [0x02, 0x06, 0x0a, 0x12, 0x1f, 0x02, 0x02, 0x00],
      [0x1f, 0x10, 0x1e, 0x01, 0x01, 0x11, 0x0e, 0x00],
      [0x06, 0x08, 0x10, 0x1e, 0x11, 0x11, 0x0e, 0x00],
      [0x1f, 0x11, 0x01, 0x02, 0x04, 0x04, 0x04, 0x00],
      [0x0e, 0x11, 0x11, 0x0e, 0x11, 0x11, 0x0e, 0x00],
      [0x0e, 0x11, 0x11, 0x0f, 0x01, 0x02, 0x0c, 0x00] ]"

section \<open>Keypad: \<^verbatim>\<open>getKey\<close>\<close>

definition KEY_NONE :: u8 where
  "KEY_NONE = 0"

definition KEY_RIGHT :: u8 where
  "KEY_RIGHT = 1"

definition KEY_UP :: u8 where
  "KEY_UP = 2"

definition KEY_DOWN :: u8 where
  "KEY_DOWN = 3"

definition KEY_LEFT :: u8 where
  "KEY_LEFT = 4"

definition KEY_SELECT :: u8 where
  "KEY_SELECT = 5"

text \<open>
  \<^verbatim>\<open>keyDef_t\<close>. The threshold is a C \<^verbatim>\<open>int\<close>; in \<^verbatim>\<open>input < adcThreshold\<close> it is
  converted to \<^verbatim>\<open>unsigned int\<close>, and every table entry is positive, so the field holds
  the converted value.
\<close>

record keyDef_t =
  adcThreshold :: u16
  id_key :: u8

definition keyDefTable :: "keyDef_t list" where
  "keyDefTable =
    [ \<lparr>adcThreshold = 760, id_key = KEY_SELECT\<rparr>,
      \<lparr>adcThreshold = 535, id_key = KEY_LEFT\<rparr>,
      \<lparr>adcThreshold = 360, id_key = KEY_DOWN\<rparr>,
      \<lparr>adcThreshold = 160, id_key = KEY_UP\<rparr>,
      \<lparr>adcThreshold = 60, id_key = KEY_RIGHT\<rparr> ]"

text \<open>The \<^verbatim>\<open>for\<close> loop of \<^verbatim>\<open>getKey\<close>: walk the table, stop at the first miss.\<close>

fun scanKeys :: "u16 \<Rightarrow> keyDef_t list \<Rightarrow> u8 \<Rightarrow> u8" where
  "scanKeys input [] key = key"
| "scanKeys input (d # ds) key =
     (if input < adcThreshold d then scanKeys input ds (id_key d) else key)"

text \<open>
  \<^verbatim>\<open>getKey\<close> with its static \<^verbatim>\<open>lastCheck\<close> passed in and returned:
  the result is the key and the new \<^verbatim>\<open>lastCheck\<close>.
\<close>

definition getKey :: "u32 \<Rightarrow> u16 \<Rightarrow> u32 \<Rightarrow> u8 \<times> u32" where
  "getKey now input lastCheck =
     (let key = (if now - lastCheck > 200 then scanKeys input keyDefTable KEY_NONE
                 else KEY_NONE)
      in (key, if key \<noteq> KEY_NONE then now else lastCheck))"

text \<open>A sequence of calls, each with its clock reading and its ADC sample.\<close>

fun getKeys :: "(u32 \<times> u16) list \<Rightarrow> u32 \<Rightarrow> u8 list \<times> u32" where
  "getKeys [] lastCheck = ([], lastCheck)"
| "getKeys ((now, input) # cs) lastCheck =
     (let (key, lc) = getKey now input lastCheck;
          (keys, lc') = getKeys cs lc
      in (key # keys, lc'))"

text \<open>
  The bracket reading of the table, stated from the thresholds downwards: a sample at
  or above 760 is no key, and each key owns the samples from the next lower threshold
  up to its own.
\<close>

definition keyBracket :: "u16 \<Rightarrow> u8" where
  "keyBracket input =
     (if 760 \<le> input then KEY_NONE
      else if 535 \<le> input then KEY_SELECT
      else if 360 \<le> input then KEY_LEFT
      else if 160 \<le> input then KEY_DOWN
      else if 60 \<le> input then KEY_UP
      else KEY_RIGHT)"

section \<open>The display collaborator\<close>

text \<open>
  The LiquidCrystal library is not part of the sketch. The calls the sketch makes on it
  are recorded as a trace; \<open>lcd_exec\<close> gives them the meaning of the collaborator
  contract: \<^verbatim>\<open>createChar\<close> defines a custom glyph, \<^verbatim>\<open>setCursor(col, row)\<close> positions,
  \<^verbatim>\<open>write\<close> puts a character code into the cell under the cursor and moves right.
\<close>

datatype lcd_call = CreateChar u8 "u8 list" | SetCursor u8 u8 | WriteChar u8

record lcd_t =
  cgram :: "u8 \<Rightarrow> u8 list"
  cursor :: "u8 \<times> u8"
  cells :: "u8 \<times> u8 \<Rightarrow> u8 option"

fun lcd_step :: "lcd_t \<Rightarrow> lcd_call \<Rightarrow> lcd_t" where
  "lcd_step l (CreateChar n bm) = l\<lparr>cgram := (cgram l)(n := bm)\<rparr>"
| "lcd_step l (SetCursor col row) = l\<lparr>cursor := (col, row)\<rparr>"
| "lcd_step l (WriteChar ch) =
     l\<lparr>cells := (cells l)(cursor l \<mapsto> ch), cursor := (fst (cursor l) + 1, snd (cursor l))\<rparr>"

definition lcd_exec :: "lcd_call list \<Rightarrow> lcd_t \<Rightarrow> lcd_t" where
  "lcd_exec cs l = foldl lcd_step l cs"

text \<open>The bitmap a cell shows: the custom glyph its character code selects.\<close>

definition shown :: "lcd_t \<Rightarrow> u8 \<Rightarrow> u8 \<Rightarrow> u8 list option" where
  "shown l col row = map_option (cgram l) (cells l (col, row))"

text \<open>\<^verbatim>\<open>updateDisplay(r, c, init)\<close> over the slot array: the calls it makes, in order.\<close>

definition updateDisplay :: "u8 \<Rightarrow> u8 \<Rightarrow> bool \<Rightarrow> digitData_t list \<Rightarrow> lcd_call list" where
  "updateDisplay r c init ds =
     concat (map (\<lambda>i. CreateChar (of_nat i) (charMap (ds ! (unat MAX_DIGITS - i - 1)))
                       # (if init then [SetCursor (c + of_nat i) r, WriteChar (of_nat i)] else []))
                 [0 ..< unat MAX_DIGITS])"

section \<open>Digit animation\<close>

text \<open>
  The two row-copy loops of \<^verbatim>\<open>ST_ANIM\<close>. The index expressions are evaluated in C
  \<^verbatim>\<open>int\<close> after promotion, so they are written over \<open>int\<close> here.
\<close>

definition blendUp :: "u8 \<Rightarrow> u8 \<Rightarrow> u8 \<Rightarrow> u8 list" where
  "blendUp pv cv idx =
     map (\<lambda>p. if int p < uint CHAR_ROWS - uint idx
               then digitsMap ! unat pv ! nat (int p + uint idx)
               else digitsMap ! unat cv ! nat (int p - uint CHAR_ROWS + uint idx))
         [0 ..< unat CHAR_ROWS]"

definition blendDown :: "u8 \<Rightarrow> u8 \<Rightarrow> u8 \<Rightarrow> u8 list" where
  "blendDown pv cv idx =
     map (\<lambda>p. if int p < uint idx
               then digitsMap ! unat cv ! nat (int p + uint CHAR_ROWS - uint idx)
               else digitsMap ! unat pv ! nat (int p - uint idx))
         [0 ..< unat CHAR_ROWS]"

text \<open>
  The body of the \<^verbatim>\<open>ST_ANIM\<close> loop for one slot: \<open>up\<close> is the outcome of
  \<^verbatim>\<open>value > valueLast\<close>, the result says whether the bitmap was rewritten.
\<close>

definition tick :: "u32 \<Rightarrow> bool \<Rightarrow> digitData_t \<Rightarrow> bool \<times> digitData_t" where
  "tick now up d =
     (if prev d \<noteq> curr d \<and> now - timeLastFrame d \<ge> ucast ANIMATION_FRAME_TIME
      then
        let d1 = d\<lparr>charMap := (if up then blendUp (prev d) (curr d) (index d)
                                else blendDown (prev d) (curr d) (index d))\<rparr>;
            d2 = d1\<lparr>index := index d1 + 1\<rparr>;
            d3 = d2\<lparr>timeLastFrame := now\<rparr>
        in (True, if index d3 > CHAR_ROWS then d3\<lparr>prev := curr d3\<rparr> else d3)
      else (False, d))"

text \<open>What the \<^verbatim>\<open>ST_WAIT\<close> loop does to one slot when a new value is taken up.\<close>

definition retarget :: "u8 \<Rightarrow> digitData_t \<Rightarrow> digitData_t" where
  "retarget nv d = d\<lparr>curr := nv, index := 0, timeLastFrame := 0\<rparr>"

text \<open>
  Frames are rendered while \<^verbatim>\<open>index\<close> runs from 0 to \<^verbatim>\<open>CHAR_ROWS\<close>; a roll is the
  sequence of bitmaps of one direction over these steps.
\<close>

definition progressSteps :: "u8 list" where
  "progressSteps = map of_nat [0 ..< Suc (unat CHAR_ROWS)]"

definition upRoll :: "u8 \<Rightarrow> u8 \<Rightarrow> u8 list list" where
  "upRoll pv cv = map (blendUp pv cv) progressSteps"

definition downRoll :: "u8 \<Rightarrow> u8 \<Rightarrow> u8 list list" where
  "downRoll pv cv = map (blendDown pv cv) progressSteps"

text \<open>
  One slot ticked again and again, each time with a clock reading and a direction;
  the result lists, per tick, whether the bitmap changed.
\<close>

fun ticks :: "(u32 \<times> bool) list \<Rightarrow> digitData_t \<Rightarrow> bool list \<times> digitData_t" where
  "ticks [] d = ([], d)"
| "ticks ((now, up) # cs) d =
     (let (ch, d') = tick now up d;
          (chs, d'') = ticks cs d'
      in (ch # chs, d''))"

text \<open>
  Clock readings each at least a frame interval after the one before, measured as the
  sketch measures it (unsigned 32-bit difference).
\<close>

fun spaced :: "u32 list \<Rightarrow> bool" where
  "spaced (t # t' # ts) = (t' - t \<ge> ucast ANIMATION_FRAME_TIME \<and> spaced (t' # ts))"
| "spaced ts = True"

section \<open>The display state machine: \<^verbatim>\<open>displayValue\<close>\<close>

datatype state_t = ST_INIT | ST_WAIT | ST_ANIM

record fsm_t =
  state :: state_t
  valueLast :: u32
  digits :: "digitData_t list"

text \<open>The statics and the global array as they are before the first call.\<close>

definition digit0 :: digitData_t where
  "digit0 = \<lparr>timeLastFrame = 0, prev = 0, curr = 0, index = 0,
             charMap = replicate (unat CHAR_ROWS) 0\<rparr>"

definition fsm_init :: fsm_t where
  "fsm_init = \<lparr>state = ST_INIT, valueLast = 0, digits = replicate (unat MAX_DIGITS) digit0\<rparr>"

text \<open>
  The digit-separation loops. Both consume \<^verbatim>\<open>value\<close> as they go and hand back what is
  left of it, since the parameter is overwritten in place.
\<close>

fun separateInit :: "u32 \<Rightarrow> digitData_t list \<Rightarrow> digitData_t list \<times> u32" where
  "separateInit v [] = ([], v)"
| "separateInit v (d # ds) =
     (let (ds', v') = separateInit (v div 10) ds
      in (d\<lparr>prev := ucast (v mod 10), curr := ucast (v mod 10)\<rparr> # ds', v'))"

fun separateWait :: "u32 \<Rightarrow> digitData_t list \<Rightarrow> digitData_t list \<times> u32" where
  "separateWait v [] = ([], v)"
| "separateWait v (d # ds) =
     (let (ds', v') = separateWait (v div 10) ds
      in (retarget (ucast (v mod 10)) d # ds', v'))"

text \<open>
  The \<^verbatim>\<open>ST_ANIM\<close> case: tick every slot, push the bitmaps if one changed, and go back
  to \<^verbatim>\<open>ST_WAIT\<close> once every slot has \<^verbatim>\<open>prev == curr\<close>. The result is the return value,
  the display calls made and the new state.
\<close>

definition animate :: "u32 \<Rightarrow> u32 \<Rightarrow> fsm_t \<Rightarrow> bool \<times> lcd_call list \<times> fsm_t" where
  "animate now v s =
     (let rs = map (tick now (v > valueLast s)) (digits s);
          ds = map snd rs;
          bUpdate = list_ex fst rs;
          calls = (if bUpdate then updateDisplay DISP_R DISP_C False ds else []);
          allDone = list_all (\<lambda>d. prev d = curr d) ds;
          s' = (if allDone then s\<lparr>digits := ds, valueLast := v, state := ST_WAIT\<rparr>
                else s\<lparr>digits := ds\<rparr>)
      in (state s' = ST_WAIT, calls, s'))"

definition displayValue :: "u32 \<Rightarrow> u32 \<Rightarrow> fsm_t \<Rightarrow> bool \<times> lcd_call list \<times> fsm_t" where
  "displayValue now v s =
     (case state s of
        ST_INIT \<Rightarrow>
          (let (ds, v') = separateInit v (digits s);
               ds' = map (\<lambda>d. d\<lparr>charMap := take (unat CHAR_ROWS) (digitsMap ! unat (curr d))\<rparr>) ds
           in (True, updateDisplay DISP_R DISP_C True ds', s\<lparr>digits := ds', state := ST_WAIT\<rparr>))
      | ST_WAIT \<Rightarrow>
          (if valueLast s \<noteq> v
           then (let (ds, v') = separateWait v (digits s)
                 in animate now v' (s\<lparr>state := ST_ANIM, digits := ds\<rparr>))
           else (True, [], s))
      | ST_ANIM \<Rightarrow> animate now v s)"

text \<open>Polling: a list of calls \<open>(now, value)\<close>, oldest first.\<close>

definition poll :: "fsm_t \<Rightarrow> u32 \<times> u32 \<Rightarrow> fsm_t" where
  "poll s c = snd (snd (displayValue (fst c) (snd c) s))"

definition polls :: "(u32 \<times> u32) list \<Rightarrow> fsm_t \<Rightarrow> fsm_t" where
  "polls cs s = foldl poll s cs"

text \<open>
  The states a run passes through while the machine is animating: from a state on, up
  to and including the first state that is no longer \<^verbatim>\<open>ST_ANIM\<close>.
\<close>

fun anim_trace :: "(u32 \<times> u32) list \<Rightarrow> fsm_t \<Rightarrow> fsm_t list" where
  "anim_trace [] s = [s]"
| "anim_trace (c # cs) s = s # (if state s = ST_ANIM then anim_trace cs (poll s c) else [])"

text \<open>What iteration \<open>i\<close> of a digit-separation loop stores: \<^verbatim>\<open>value % 10\<close> after \<open>i\<close> divisions by ten.\<close>

fun nthDigit :: "u32 \<Rightarrow> nat \<Rightarrow> u8" where
  "nthDigit v 0 = ucast (v mod 10)"
| "nthDigit v (Suc i) = nthDigit (v div 10) i"

text \<open>
  What holds of every slot and of the machine in every state a run from \<open>fsm_init\<close>
  reaches: digits are below ten, bitmaps have eight rows, a slot in flight has
  \<^verbatim>\<open>index\<close> at most \<^verbatim>\<open>CHAR_ROWS\<close>, and outside \<^verbatim>\<open>ST_ANIM\<close> no slot is in flight. With it
  every array access of the sketch stays in range.
\<close>

definition slot_ok :: "digitData_t \<Rightarrow> bool" where
  "slot_ok d = (unat (prev d) < 10 \<and> unat (curr d) < 10 \<and> length (charMap d) = 8
                \<and> (prev d = curr d \<or> unat (index d) \<le> 8))"

definition fsm_ok :: "fsm_t \<Rightarrow> bool" where
  "fsm_ok s = (length (digits s) = 8 \<and> list_all slot_ok (digits s)
               \<and> (state s = ST_ANIM \<or> list_all (\<lambda>d. prev d = curr d) (digits s)))"

text \<open>
  A run used in examples: boot with 12345678, then the value 12345679 polled every
  50 ms until the roll has settled.
\<close>

definition run_up :: "(u32 \<times> u32) list" where
  "run_up = [(1000, 12345678), (1100, 12345679), (1150, 12345679), (1200, 12345679),
             (1250, 12345679), (1300, 12345679), (1350, 12345679), (1400, 12345679),
             (1450, 12345679), (1500, 12345679)]"

text \<open>
  Boot with 12345678, polled once more unchanged, then one press of the Down key: the
  value 12345677 polled twice.
\<close>

definition run_down :: "(u32 \<times> u32) list" where
  "run_down = [(1000, 12345678), (1050, 12345678), (1100, 12345677), (1150, 12345677)]"

text \<open>
  After \<open>run_up\<close>, a second press of Up (12345680) and, 250 ms into its roll, a press of
  Down (12345679 again).
\<close>

definition run_flip :: "(u32 \<times> u32) list" where
  "run_flip = run_up @ [(1600, 12345680), (1650, 12345680), (1700, 12345680), (1750, 12345680),
                        (1800, 12345680), (1850, 12345679)]"

text \<open>
  Boot with 12345678, a press of Up (12345679) and, 250 ms into its roll, a second
  press of Up (12345680), polled until the machine is back in \<^verbatim>\<open>ST_WAIT\<close>.
\<close>

definition run_retarget :: "(u32 \<times> u32) list" where
  "run_retarget = [(1000, 12345678), (1100, 12345679), (1150, 12345679), (1200, 12345679),
                   (1250, 12345679), (1300, 12345679), (1350, 12345680), (1400, 12345680),
                   (1450, 12345680), (1500, 12345680)]"

section \<open>Keypad properties\<close>

lemma scanKeys_table: "scanKeys input keyDefTable KEY_NONE = keyBracket input"
  by (auto simp: keyDefTable_def keyBracket_def word_less_nat_alt word_le_nat_alt)

lemma getKey_open:
  "200 < now - lastCheck \<Longrightarrow>
     getKey now input lastCheck =
       (keyBracket input, if keyBracket input \<noteq> KEY_NONE then now else lastCheck)"
  by (simp add: getKey_def scanKeys_table)

lemma getKey_closed:
  "now - lastCheck \<le> 200 \<Longrightarrow> getKey now input lastCheck = (KEY_NONE, lastCheck)"
  using leD [of "now - lastCheck" 200] by (simp add: getKey_def)

lemma getKeys_closed:
  "\<forall>c \<in> set cs. fst c - t0 \<le> 200 \<Longrightarrow> getKeys cs t0 = (replicate (length cs) KEY_NONE, t0)"
proof (induction cs)
  case Nil
  show ?case by simp
next
  case (Cons c cs)
  obtain t i where c: "c = (t, i)" by (cases c)
  from Cons.prems c have "t - t0 \<le> 200" by simp
  then have "getKey t i t0 = (KEY_NONE, t0)" by (rule getKey_closed)
  moreover from Cons have "getKeys cs t0 = (replicate (length cs) KEY_NONE, t0)" by simp
  ultimately show ?case by (simp add: c)
qed

text \<open>
  C8. Once more than 200 ms have passed since \<^verbatim>\<open>lastCheck\<close>, \<^verbatim>\<open>getKey\<close> returns the key
  whose threshold bracket holds the sample (no key from 760 up) and otherwise no key,
  leaving \<^verbatim>\<open>lastCheck\<close> alone; \<^verbatim>\<open>lastCheck\<close> becomes the time of the call exactly when
  a key is returned. So after a call that returned a key, every later call whose clock
  reading is within 200 ms of that call returns no key, whatever its sample.
\<close>

theorem getKey_buckets_and_debounce:
  assumes "\<forall>c \<in> set cs. fst c - now \<le> 200"
  shows "getKey now input lastCheck =
           (if 200 < now - lastCheck
            then (keyBracket input, if keyBracket input \<noteq> KEY_NONE then now else lastCheck)
            else (KEY_NONE, lastCheck))
         \<and> (fst (getKey now input lastCheck) \<noteq> KEY_NONE \<longrightarrow>
              getKeys cs (snd (getKey now input lastCheck))
                = (replicate (length cs) KEY_NONE, now))"
proof (cases "200 < now - lastCheck")
  case True
  then show ?thesis
    using getKeys_closed [OF assms] by (simp add: getKey_open)
next
  case False
  then show ?thesis by (simp add: getKey_closed not_less)
qed

theorem getKey_buckets_and_debounce_witness:
  "(1100 :: u32) - 1000 \<le> 200 \<and> (1200 :: u32) - 1000 \<le> 200
   \<and> getKey 1000 100 0 = (KEY_UP, 1000)
   \<and> fst (getKey 1000 100 0) \<noteq> KEY_NONE
   \<and> getKeys [(1100, 100), (1200, 700)] (snd (getKey 1000 100 0)) = ([KEY_NONE, KEY_NONE], 1000)"
proof -
  have h: "\<forall>c \<in> set [(1100, 100), (1200 :: u32, 700 :: u16)]. fst c - 1000 \<le> 200"
    by simp
  have k: "keyBracket 100 = KEY_UP"
    by (simp add: keyBracket_def)
  have n: "KEY_UP \<noteq> KEY_NONE"
    by (simp add: KEY_UP_def KEY_NONE_def)
  note t = getKey_buckets_and_debounce [OF h, of 100 0]
  from t k n have g: "getKey 1000 100 0 = (KEY_UP, 1000)"
    by (simp del: getKeys.simps)
  with n have f: "fst (getKey 1000 100 0) \<noteq> KEY_NONE"
    by simp
  from t f have r: "getKeys [(1100, 100), (1200, 700)] (snd (getKey 1000 100 0))
                 = (replicate (length [(1100 :: u32, 100 :: u16), (1200, 700)]) KEY_NONE, 1000)"
    by blast
  have "replicate (length [(1100 :: u32, 100 :: u16), (1200, 700)]) KEY_NONE = [KEY_NONE, KEY_NONE]"
    by (simp add: numeral_2_eq_2)
  with r have "getKeys [(1100, 100), (1200, 700)] (snd (getKey 1000 100 0))
                 = ([KEY_NONE, KEY_NONE], 1000)"
    by (simp only:)
  moreover have "(1100 :: u32) - 1000 \<le> 200" and "(1200 :: u32) - 1000 \<le> 200"
    by simp_all
  ultimately show ?thesis using g f by blast
qed

section \<open>Glyphs and blends\<close>

lemma length_digitsMap: "length digitsMap = 10"
  by (simp add: digitsMap_def)

lemma glyph_rows: "n < 10 \<Longrightarrow> length (digitsMap ! n) = 8"
proof -
  have "\<forall>n<10. length (digitsMap ! n) = 8"
    unfolding digitsMap_def by (simp add: All_less_Suc numeral_nat)
  then show "n < 10 \<Longrightarrow> length (digitsMap ! n) = 8" by blast
qed

lemma map_rows: "length g = 8 \<Longrightarrow> map (\<lambda>p. g ! p) [0..<8] = g"
  using map_nth [of g] by simp

lemma rows_uint: "uint CHAR_ROWS = 8" and rows_unat: "unat CHAR_ROWS = 8"
  by (simp_all add: CHAR_ROWS_def)

lemma length_blendUp: "length (blendUp pv cv k) = 8"
  by (simp add: blendUp_def rows_unat)

lemma length_blendDown: "length (blendDown pv cv k) = 8"
  by (simp add: blendDown_def rows_unat)

text \<open>
  With \<^verbatim>\<open>index\<close> at most \<^verbatim>\<open>CHAR_ROWS\<close>, which is the case for every slot in flight, each
  row the two loops read lies inside the glyph.
\<close>

lemma blend_rows_in_range:
  assumes "unat idx \<le> 8" and "p < 8"
  shows "(int p < uint CHAR_ROWS - uint idx \<longrightarrow> nat (int p + uint idx) < 8)
         \<and> (\<not> int p < uint CHAR_ROWS - uint idx \<longrightarrow>
              0 \<le> int p - uint CHAR_ROWS + uint idx \<and> nat (int p - uint CHAR_ROWS + uint idx) < 8)
         \<and> (int p < uint idx \<longrightarrow>
              0 \<le> int p + uint CHAR_ROWS - uint idx \<and> nat (int p + uint CHAR_ROWS - uint idx) < 8)
         \<and> (\<not> int p < uint idx \<longrightarrow> 0 \<le> int p - uint idx \<and> nat (int p - uint idx) < 8)"
proof -
  have "uint idx = int (unat idx)" by (rule uint_nat)
  with assms(1) have "uint idx \<le> 8" and "0 \<le> uint idx" by linarith+
  with assms(2) show ?thesis unfolding rows_uint by (intro conjI impI; arith)
qed

lemma blendUp_0: "unat pv < 10 \<Longrightarrow> blendUp pv cv 0 = digitsMap ! unat pv"
proof -
  assume a: "unat pv < 10"
  have "blendUp pv cv 0 = map (\<lambda>p. (digitsMap ! unat pv) ! p) [0..<8]"
    unfolding blendUp_def rows_uint rows_unat by (rule map_cong) auto
  then show ?thesis using a by (simp add: map_rows glyph_rows)
qed

lemma blendDown_0: "unat pv < 10 \<Longrightarrow> blendDown pv cv 0 = digitsMap ! unat pv"
proof -
  assume a: "unat pv < 10"
  have "blendDown pv cv 0 = map (\<lambda>p. (digitsMap ! unat pv) ! p) [0..<8]"
    unfolding blendDown_def rows_uint rows_unat by (rule map_cong) auto
  then show ?thesis using a by (simp add: map_rows glyph_rows)
qed

lemma blendUp_rows: "unat cv < 10 \<Longrightarrow> blendUp pv cv CHAR_ROWS = digitsMap ! unat cv"
proof -
  assume a: "unat cv < 10"
  have "blendUp pv cv CHAR_ROWS = map (\<lambda>p. (digitsMap ! unat cv) ! p) [0..<8]"
    unfolding blendUp_def rows_uint rows_unat by (rule map_cong) auto
  then show ?thesis using a by (simp add: map_rows glyph_rows)
qed

lemma blendDown_rows: "unat cv < 10 \<Longrightarrow> blendDown pv cv CHAR_ROWS = digitsMap ! unat cv"
proof -
  assume a: "unat cv < 10"
  have "blendDown pv cv CHAR_ROWS = map (\<lambda>p. (digitsMap ! unat cv) ! p) [0..<8]"
    unfolding blendDown_def rows_uint rows_unat by (rule map_cong) auto
  then show ?thesis using a by (simp add: map_rows glyph_rows)
qed

lemma blendDown_mirror:
  assumes "k \<le> CHAR_ROWS"
  shows "blendDown pv cv k = blendUp cv pv (CHAR_ROWS - k)"
proof -
  have "uint k \<le> 8"
    using assms by (simp add: word_le_def rows_uint)
  then have k: "uint (CHAR_ROWS - k) = 8 - uint k"
    using assms by (simp add: uint_minus_simple_alt rows_uint)
  show ?thesis
    unfolding blendDown_def blendUp_def k rows_uint rows_unat
    by (rule map_cong) (auto simp: algebra_simps)
qed

lemma progressSteps_eq: "progressSteps = [0, 1, 2, 3, 4, 5, 6, 7, 8]"
  by (simp add: progressSteps_def rows_unat upt_rec numeral_nat)

text \<open>
  C4, as the sketch has it. The downward roll of a pair is the upward roll of the
  swapped pair run backwards: the two directions are mirror images in time once
  previous and current digit change places.
\<close>

theorem downRoll_mirror: "downRoll pv cv = rev (upRoll cv pv)"
proof -
  have "blendDown pv cv k = blendUp cv pv (CHAR_ROWS - k)" if "k \<in> set progressSteps" for k
  proof -
    from that have "k \<le> CHAR_ROWS"
      by (auto simp: progressSteps_eq CHAR_ROWS_def)
    then show ?thesis by (rule blendDown_mirror)
  qed
  then have "downRoll pv cv = map (\<lambda>k. blendUp cv pv (CHAR_ROWS - k)) progressSteps"
    unfolding downRoll_def by (simp cong: map_cong)
  also have "\<dots> = rev (upRoll cv pv)"
    by (simp add: upRoll_def progressSteps_eq CHAR_ROWS_def)
  finally show ?thesis .
qed

text \<open>
  C4, as stated, fails for the pair (0, 1): a bitmap of the upward roll is no bitmap of
  the downward roll of the same pair, the upward roll is not the downward roll
  reversed, and a downward frame is not the upward frame with its rows reversed.
\<close>

theorem same_pair_rolls_differ:
  "blendUp 0 1 1 \<in> set (upRoll 0 1) \<and> blendUp 0 1 1 \<notin> set (downRoll 0 1)
   \<and> upRoll 0 1 \<noteq> rev (downRoll 0 1)
   \<and> blendDown 0 1 1 \<noteq> rev (blendUp 0 1 1)"
  by code_simp

section \<open>One slot: retarget and tick\<close>

lemma frame_time: "(ucast ANIMATION_FRAME_TIME :: u32) = 50"
  by (simp add: ANIMATION_FRAME_TIME_def)

lemma tick_idle:
  "prev d = curr d \<or> now - timeLastFrame d < ucast ANIMATION_FRAME_TIME \<Longrightarrow>
     tick now up d = (False, d)"
  by (auto simp: tick_def not_le [symmetric])

lemma tick_frame:
  assumes "prev d \<noteq> curr d" and "ucast ANIMATION_FRAME_TIME \<le> now - timeLastFrame d"
    and "unat (index d) \<le> 8"
  shows "fst (tick now up d)"
    and "unat (index (snd (tick now up d))) = Suc (unat (index d))"
    and "timeLastFrame (snd (tick now up d)) = now"
    and "curr (snd (tick now up d)) = curr d"
    and "prev (snd (tick now up d)) = (if unat (index d) = 8 then curr d else prev d)"
proof -
  from assms(3) have s: "unat (index d + 1) = Suc (unat (index d))"
    by (simp add: unat_word_ariths)
  then have g: "(CHAR_ROWS < index d + 1) = (unat (index d) = 8)"
    using assms(3) by (simp add: word_less_nat_alt rows_unat) arith
  from assms(1,2) s show "fst (tick now up d)"
    and "unat (index (snd (tick now up d))) = Suc (unat (index d))"
    and "timeLastFrame (snd (tick now up d)) = now"
    and "curr (snd (tick now up d)) = curr d"
    by (simp_all add: tick_def Let_def)
  from assms(1,2) g show "prev (snd (tick now up d)) = (if unat (index d) = 8 then curr d else prev d)"
    by (simp add: tick_def Let_def)
qed

text \<open>
  C10. For a slot whose digits are below ten and either direction, the blend at
  progress 0 is the reference glyph of the previous digit and the blend at progress
  \<^verbatim>\<open>CHAR_ROWS\<close> is the reference glyph of the current digit. So the frame a slot in
  flight renders at index 0 shows the old digit again, and the frame it renders at index
  \<^verbatim>\<open>CHAR_ROWS\<close>, after which it is settled, is the glyph of the new digit.
\<close>

theorem blend_endpoints:
  assumes "unat (prev d) < 10" and "unat (curr d) < 10"
  shows "blendUp (prev d) (curr d) 0 = digitsMap ! unat (prev d)
         \<and> blendDown (prev d) (curr d) 0 = digitsMap ! unat (prev d)
         \<and> blendUp (prev d) (curr d) CHAR_ROWS = digitsMap ! unat (curr d)
         \<and> blendDown (prev d) (curr d) CHAR_ROWS = digitsMap ! unat (curr d)
         \<and> (prev d \<noteq> curr d \<and> ucast ANIMATION_FRAME_TIME \<le> now - timeLastFrame d \<and> index d = 0
              \<longrightarrow> charMap (snd (tick now up d)) = digitsMap ! unat (prev d))
         \<and> (prev d \<noteq> curr d \<and> ucast ANIMATION_FRAME_TIME \<le> now - timeLastFrame d
              \<and> index d = CHAR_ROWS
              \<longrightarrow> charMap (snd (tick now up d)) = digitsMap ! unat (curr d)
                  \<and> prev (snd (tick now up d)) = curr d)"
proof -
  note b = blendUp_0 [OF assms(1), of "curr d"] blendDown_0 [OF assms(1), of "curr d"]
    blendUp_rows [OF assms(2), of "prev d"] blendDown_rows [OF assms(2), of "prev d"]
  have "charMap (snd (tick now up d)) = digitsMap ! unat (prev d)"
    if "prev d \<noteq> curr d \<and> ucast ANIMATION_FRAME_TIME \<le> now - timeLastFrame d \<and> index d = 0"
    using that b by (simp add: tick_def Let_def)
  moreover have "charMap (snd (tick now up d)) = digitsMap ! unat (curr d)
                 \<and> prev (snd (tick now up d)) = curr d"
    if "prev d \<noteq> curr d \<and> ucast ANIMATION_FRAME_TIME \<le> now - timeLastFrame d
        \<and> index d = CHAR_ROWS"
    using that b by (simp add: tick_def Let_def) (simp add: CHAR_ROWS_def)
  ultimately show ?thesis using b by blast
qed

theorem blend_endpoints_witness:
  "unat (3 :: u8) < 10 \<and> unat (7 :: u8) < 10 \<and> (3 :: u8) \<noteq> 7
   \<and> ucast ANIMATION_FRAME_TIME \<le> (1050 :: u32) - 1000
   \<and> blendUp 3 7 0 = [0x1f, 0x02, 0x04, 0x02, 0x01, 0x11, 0x0e, 0x00]
   \<and> blendDown 3 7 0 = [0x1f, 0x02, 0x04, 0x02, 0x01, 0x11, 0x0e, 0x00]
   \<and> blendUp 3 7 CHAR_ROWS = [0x1f, 0x11, 0x01, 0x02, 0x04, 0x04, 0x04, 0x00]
   \<and> blendDown 3 7 CHAR_ROWS = [0x1f, 0x11, 0x01, 0x02, 0x04, 0x04, 0x04, 0x00]
   \<and> charMap (snd (tick 1050 False
         \<lparr>timeLastFrame = 1000, prev = 3, curr = 7, index = 0, charMap = digitsMap ! 3\<rparr>))
        = [0x1f, 0x02, 0x04, 0x02, 0x01, 0x11, 0x0e, 0x00]
   \<and> charMap (snd (tick 1050 True
         \<lparr>timeLastFrame = 1000, prev = 3, curr = 7, index = CHAR_ROWS, charMap = blendUp 3 7 7\<rparr>))
        = [0x1f, 0x11, 0x01, 0x02, 0x04, 0x04, 0x04, 0x00]
   \<and> prev (snd (tick 1050 True
         \<lparr>timeLastFrame = 1000, prev = 3, curr = 7, index = CHAR_ROWS, charMap = blendUp 3 7 7\<rparr>))
        = 7"
proof -
  let ?d0 = "\<lparr>timeLastFrame = 1000, prev = 3, curr = 7, index = 0, charMap = digitsMap ! 3\<rparr>"
  let ?d8 = "\<lparr>timeLastFrame = 1000, prev = 3, curr = 7, index = CHAR_ROWS, charMap = blendUp 3 7 7\<rparr>"
  have h3: "unat (3 :: u8) < 10" and h7: "unat (7 :: u8) < 10" and ne: "(3 :: u8) \<noteq> 7"
    and ft: "ucast ANIMATION_FRAME_TIME \<le> (1050 :: u32) - 1000"
    by (simp_all add: frame_time)
  have g3: "digitsMap ! unat (3 :: u8) = [0x1f, 0x02, 0x04, 0x02, 0x01, 0x11, 0x0e, 0x00]"
    and g7: "digitsMap ! unat (7 :: u8) = [0x1f, 0x11, 0x01, 0x02, 0x04, 0x04, 0x04, 0x00]"
    by (simp_all add: digitsMap_def)
  have p0: "unat (prev ?d0) < 10" and c0: "unat (curr ?d0) < 10"
    and p8: "unat (prev ?d8) < 10" and c8: "unat (curr ?d8) < 10"
    by simp_all
  have s0: "prev ?d0 \<noteq> curr ?d0 \<and> ucast ANIMATION_FRAME_TIME \<le> 1050 - timeLastFrame ?d0
            \<and> index ?d0 = 0"
    using ft by simp
  have s8: "prev ?d8 \<noteq> curr ?d8 \<and> ucast ANIMATION_FRAME_TIME \<le> 1050 - timeLastFrame ?d8
            \<and> index ?d8 = CHAR_ROWS"
    using ft by simp
  from blend_endpoints [OF p0 c0, of 1050 False] s0
  have a: "blendUp 3 7 0 = digitsMap ! unat (3 :: u8)"
    "blendDown 3 7 0 = digitsMap ! unat (3 :: u8)"
    "blendUp 3 7 CHAR_ROWS = digitsMap ! unat (7 :: u8)"
    "blendDown 3 7 CHAR_ROWS = digitsMap ! unat (7 :: u8)"
    "charMap (snd (tick 1050 False ?d0)) = digitsMap ! unat (3 :: u8)"
    by simp_all
  from blend_endpoints [OF p8 c8, of 1050 True] s8
  have b: "charMap (snd (tick 1050 True ?d8)) = digitsMap ! unat (7 :: u8)"
    "prev (snd (tick 1050 True ?d8)) = 7"
    by simp_all
  from a b h3 h7 ne ft show ?thesis unfolding g3 g7 by blast
qed

lemma ticks_settled: "prev d = curr d \<Longrightarrow> ticks cs d = (replicate (length cs) False, d)"
proof (induction cs)
  case Nil
  show ?case by simp
next
  case (Cons c cs)
  obtain t u where c: "c = (t, u)" by (cases c)
  from Cons.prems have "tick t u d = (False, d)" by (simp add: tick_idle)
  with Cons c show ?case by simp
qed

lemma count_flags: "count_list (replicate n True @ replicate m False) True = n"
  by (induction n) (simp_all add: count_list_0_iff)

lemma ticks_started:
  assumes "prev d \<noteq> curr d" and "unat (index d) = k" and "k \<le> 8"
    and "spaced (timeLastFrame d # map fst cs)" and "9 - k \<le> length cs"
  shows "fst (ticks cs d) = replicate (9 - k) True @ replicate (length cs - (9 - k)) False
         \<and> prev (snd (ticks cs d)) = curr d \<and> curr (snd (ticks cs d)) = curr d"
  using assms
proof (induction cs arbitrary: d k)
  case Nil
  then show ?case by simp
next
  case (Cons c cs)
  obtain t u where c: "c = (t, u)" by (cases c)
  obtain ch e where te: "tick t u d = (ch, e)" by (cases "tick t u d")
  from Cons.prems(4) c have sp: "ucast ANIMATION_FRAME_TIME \<le> t - timeLastFrame d"
    and sp': "spaced (t # map fst cs)" by simp_all
  from Cons.prems(2,3) have i8: "unat (index d) \<le> 8" by simp
  note tf = tick_frame [OF Cons.prems(1) sp i8, of u, unfolded te fst_conv snd_conv]
  show ?case
  proof (cases "k = 8")
    case True
    with tf Cons.prems(2) have "prev e = curr e" by simp
    then have "ticks cs e = (replicate (length cs) False, e)" by (rule ticks_settled)
    with True tf te c Cons.prems(2) show ?thesis by simp
  next
    case False
    with Cons.prems(2,3) tf have a: "prev e \<noteq> curr e" and b: "unat (index e) = Suc k"
      and k8: "Suc k \<le> 8" using Cons.prems(1) by simp_all
    from sp' tf have c': "spaced (timeLastFrame e # map fst cs)" by simp
    from Cons.prems(5) k8 have d': "9 - Suc k \<le> length cs" by simp
    from Cons.IH [OF a b k8 c' d'] tf
    have "fst (ticks cs e) = replicate (9 - Suc k) True @ replicate (length cs - (9 - Suc k)) False"
      and "prev (snd (ticks cs e)) = curr d" and "curr (snd (ticks cs e)) = curr d"
      by simp_all
    moreover from k8 have "9 - k = Suc (9 - Suc k)" by simp
    ultimately show ?thesis
      using te c tf(1) k8 by (simp add: split_def)
  qed
qed

lemma later_reading_smaller:
  fixes t t' :: u32
  assumes "ucast ANIMATION_FRAME_TIME \<le> t' - t" and "unat t < 50" and "unat t' < 50"
  shows "unat t' < unat t"
proof (rule ccontr)
  assume "\<not> unat t' < unat t"
  then have "t \<le> t'" by (simp add: word_le_nat_alt)
  then have "unat (t' - t) = unat t' - unat t" by (rule unat_sub)
  with assms(3) have "unat (t' - t) < 50" by simp
  with assms(1) show False by (simp add: frame_time word_le_nat_alt)
qed

lemma ticks_fresh:
  assumes "prev d \<noteq> curr d" and "index d = 0" and "timeLastFrame d = 0"
  shows "spaced (map fst cs) \<Longrightarrow>
         (if 50 \<le> unat (fst (hd cs)) then 0 else Suc (unat (fst (hd cs)))) + 9 \<le> length cs \<Longrightarrow>
         count_list (fst (ticks cs d)) True = 9
         \<and> prev (snd (ticks cs d)) = curr d \<and> curr (snd (ticks cs d)) = curr d"
proof (induction cs)
  case Nil
  then show ?case by simp
next
  case (Cons c cs)
  obtain t u where c: "c = (t, u)" by (cases c)
  show ?case
  proof (cases "50 \<le> unat t")
    case True
    then have sp: "ucast ANIMATION_FRAME_TIME \<le> t - timeLastFrame d"
      using assms(3) by (simp add: frame_time word_le_nat_alt)
    obtain ch e where te: "tick t u d = (ch, e)" by (cases "tick t u d")
    from assms(2) have i8: "unat (index d) \<le> 8" by simp
    note tf = tick_frame [OF assms(1) sp i8, of u, unfolded te fst_conv snd_conv]
    from tf assms(1,2) have a: "prev e \<noteq> curr e" and b: "unat (index e) = 1" by simp_all
    from Cons.prems(1) c tf have c': "spaced (timeLastFrame e # map fst cs)" by simp
    from Cons.prems(2) c True have d': "9 - 1 \<le> length cs" by simp
    from ticks_started [OF a b _ c' d'] tf
    have "fst (ticks cs e) = replicate 8 True @ replicate (length cs - 8) False"
      and "prev (snd (ticks cs e)) = curr d" and "curr (snd (ticks cs e)) = curr d"
      by simp_all
    then show ?thesis
      using te c tf(1) count_flags [of 8 "length cs - 8"] by (simp add: split_def)
  next
    case False
    then have "t - timeLastFrame d < ucast ANIMATION_FRAME_TIME"
      using assms(3) by (simp add: frame_time word_less_nat_alt)
    then have te: "tick t u d = (False, d)" by (simp add: tick_idle)
    from Cons.prems(2) c have "cs \<noteq> []" by auto
    then obtain c' cs' where cs: "cs = c' # cs'" by (cases cs) auto
    obtain t' u' where c': "c' = (t', u')" by (cases c')
    from Cons.prems(1) c cs c' have far: "ucast ANIMATION_FRAME_TIME \<le> t' - t"
      and sp: "spaced (map fst cs)" by simp_all
    have "(if 50 \<le> unat t' then 0 else Suc (unat t')) \<le> unat t"
      using later_reading_smaller [OF far] False by auto
    with Cons.prems(2) c False cs c'
    have "(if 50 \<le> unat (fst (hd cs)) then 0 else Suc (unat (fst (hd cs)))) + 9 \<le> length cs"
      by (simp split: if_splits)
    from Cons.IH [OF sp this] te c show ?thesis by (simp add: split_def Let_def)
  qed
qed

lemma retarget_fresh:
  "prev d = curr d \<Longrightarrow> nv \<noteq> curr d \<Longrightarrow>
     prev (retarget nv d) \<noteq> curr (retarget nv d) \<and> index (retarget nv d) = 0
     \<and> timeLastFrame (retarget nv d) = 0 \<and> curr (retarget nv d) = nv"
  by (auto simp: retarget_def)

text \<open>
  C3. A slot settled on one digit is retargeted to another and then ticked with clock
  readings each at least 50 ms after the one before. With 59 or more ticks, or with 9 or
  more ticks when the first reading is itself at least 50 ms past the timer's reset
  value 0, the slot ends settled on the new digit and exactly 9 ticks have reported a
  change; in the second case these are the first nine. A tick on a settled slot, or
  before 50 ms have passed since the last frame, reports no change and leaves the
  slot as it was.
\<close>

theorem retarget_then_ticks:
  assumes "prev d = curr d" and "nv \<noteq> curr d" and "spaced (map fst cs)"
    and "59 \<le> length cs \<or> (9 \<le> length cs \<and> ucast ANIMATION_FRAME_TIME \<le> fst (hd cs))"
  shows "count_list (fst (ticks cs (retarget nv d))) True = unat CHAR_ROWS + 1
         \<and> prev (snd (ticks cs (retarget nv d))) = nv
         \<and> curr (snd (ticks cs (retarget nv d))) = nv
         \<and> (ucast ANIMATION_FRAME_TIME \<le> fst (hd cs) \<longrightarrow>
              fst (ticks cs (retarget nv d))
                = replicate 9 True @ replicate (length cs - 9) False)
         \<and> (prev e = curr e \<or> now - timeLastFrame e < ucast ANIMATION_FRAME_TIME \<longrightarrow>
              tick now up e = (False, e))"
proof -
  let ?r = "retarget nv d"
  from retarget_fresh [OF assms(1,2)]
  have a: "prev ?r \<noteq> curr ?r" and b: "index ?r = 0" and c: "timeLastFrame ?r = 0"
    and n: "curr ?r = nv" by blast+
  have len: "(if 50 \<le> unat (fst (hd cs)) then 0 else Suc (unat (fst (hd cs)))) + 9 \<le> length cs"
    using assms(4) by (auto simp: frame_time word_le_nat_alt)
  from ticks_fresh [OF a b c assms(3) len] n
  have main: "count_list (fst (ticks cs ?r)) True = unat CHAR_ROWS + 1"
    "prev (snd (ticks cs ?r)) = nv" "curr (snd (ticks cs ?r)) = nv"
    by (simp_all add: rows_unat)
  have first: "fst (ticks cs ?r) = replicate 9 True @ replicate (length cs - 9) False"
    if h: "ucast ANIMATION_FRAME_TIME \<le> fst (hd cs)"
  proof -
    from assms(4) have "cs \<noteq> []" by auto
    then have "map fst cs = fst (hd cs) # map fst (tl cs)" by (cases cs) simp_all
    moreover have "ucast ANIMATION_FRAME_TIME \<le> fst (hd cs) - 0" using h by simp
    ultimately have sp: "spaced (timeLastFrame ?r # map fst cs)"
      using assms(3) c by simp
    from b have i0: "unat (index ?r) = 0" by simp
    from assms(4) have l9: "9 - 0 \<le> length cs" by auto
    from ticks_started [OF a i0 _ sp l9] show ?thesis by simp
  qed
  from main first tick_idle [of e now up] show ?thesis by blast
qed

theorem retarget_then_ticks_witness:
  "prev \<lparr>timeLastFrame = 0, prev = 8, curr = 8, index = 0, charMap = digitsMap ! 8\<rparr>
     = curr \<lparr>timeLastFrame = 0, prev = 8, curr = 8, index = 0, charMap = digitsMap ! 8\<rparr>
   \<and> (9 :: u8) \<noteq> curr \<lparr>timeLastFrame = 0, prev = 8, curr = 8, index = 0, charMap = digitsMap ! 8\<rparr>
   \<and> spaced (map fst [(1100 :: u32, True), (1150, True), (1200, True), (1250, True), (1300, True),
                        (1350, True), (1400, True), (1450, True), (1500, True)])
   \<and> ucast ANIMATION_FRAME_TIME \<le> (1100 :: u32)
   \<and> count_list (fst (ticks [(1100, True), (1150, True), (1200, True), (1250, True), (1300, True),
                               (1350, True), (1400, True), (1450, True), (1500, True)]
          (retarget 9 \<lparr>timeLastFrame = 0, prev = 8, curr = 8, index = 0, charMap = digitsMap ! 8\<rparr>)))
        True = 9
   \<and> prev (snd (ticks [(1100, True), (1150, True), (1200, True), (1250, True), (1300, True),
                       (1350, True), (1400, True), (1450, True), (1500, True)]
          (retarget 9 \<lparr>timeLastFrame = 0, prev = 8, curr = 8, index = 0, charMap = digitsMap ! 8\<rparr>)))
        = 9
   \<and> curr (snd (ticks [(1100, True), (1150, True), (1200, True), (1250, True), (1300, True),
                       (1350, True), (1400, True), (1450, True), (1500, True)]
          (retarget 9 \<lparr>timeLastFrame = 0, prev = 8, curr = 8, index = 0, charMap = digitsMap ! 8\<rparr>)))
        = 9
   \<and> fst (ticks [(1100, True), (1150, True), (1200, True), (1250, True), (1300, True),
                 (1350, True), (1400, True), (1450, True), (1500, True)]
          (retarget 9 \<lparr>timeLastFrame = 0, prev = 8, curr = 8, index = 0, charMap = digitsMap ! 8\<rparr>))
        = [True, True, True, True, True, True, True, True, True]
   \<and> tick 2000 True \<lparr>timeLastFrame = 0, prev = 8, curr = 8, index = 0, charMap = digitsMap ! 8\<rparr>
        = (False, \<lparr>timeLastFrame = 0, prev = 8, curr = 8, index = 0, charMap = digitsMap ! 8\<rparr>)"
proof -
  let ?d = "\<lparr>timeLastFrame = 0, prev = 8, curr = 8, index = 0, charMap = digitsMap ! 8\<rparr>"
  let ?cs = "[(1100 :: u32, True), (1150, True), (1200, True), (1250, True), (1300, True),
              (1350, True), (1400, True), (1450, True), (1500, True)]"
  have h1: "prev ?d = curr ?d" by simp
  have h2: "(9 :: u8) \<noteq> curr ?d" by simp
  have h3: "spaced (map fst ?cs)" by (simp add: frame_time)
  have h5: "ucast ANIMATION_FRAME_TIME \<le> fst (hd ?cs)" by (simp add: frame_time)
  have l: "length ?cs = 9" by simp
  then have h4: "59 \<le> length ?cs \<or> (9 \<le> length ?cs \<and> ucast ANIMATION_FRAME_TIME \<le> fst (hd ?cs))"
    using h5 by simp
  note t = retarget_then_ticks [OF h1 h2 h3 h4, of ?d 2000 True]
  from t have c1: "count_list (fst (ticks ?cs (retarget 9 ?d))) True = unat CHAR_ROWS + 1"
    and c2: "prev (snd (ticks ?cs (retarget 9 ?d))) = 9"
    and c3: "curr (snd (ticks ?cs (retarget 9 ?d))) = 9"
    and c4: "ucast ANIMATION_FRAME_TIME \<le> fst (hd ?cs) \<longrightarrow>
             fst (ticks ?cs (retarget 9 ?d)) = replicate 9 True @ replicate (length ?cs - 9) False"
    and c5: "prev ?d = curr ?d \<or> 2000 - timeLastFrame ?d < ucast ANIMATION_FRAME_TIME \<longrightarrow>
             tick 2000 True ?d = (False, ?d)"
    by blast+
  from c1 have c1': "count_list (fst (ticks ?cs (retarget 9 ?d))) True = 9"
    by (simp only: rows_unat)
  from c4 h5 have "fst (ticks ?cs (retarget 9 ?d)) = replicate 9 True @ replicate (length ?cs - 9) False"
    by blast
  also have "\<dots> = [True, True, True, True, True, True, True, True, True]"
    unfolding l by (simp add: numeral_nat)
  finally have c4': "fst (ticks ?cs (retarget 9 ?d)) = [True, True, True, True, True, True, True, True, True]" .
  from c5 h1 have c5': "tick 2000 True ?d = (False, ?d)" by blast
  have h5': "ucast ANIMATION_FRAME_TIME \<le> (1100 :: u32)" by (simp add: frame_time)
  from h1 h2 h3 h5' c1' c2 c3 c4' c5' show ?thesis by blast
qed

section \<open>Digit separation\<close>

lemma unat_nthDigit: "unat (nthDigit v i) = (unat v div 10 ^ i) mod 10"
proof (induction i arbitrary: v)
  case 0
  have "unat (v mod 10) = unat v mod 10" by (simp add: unat_mod)
  moreover have "unat v mod 10 < 256" by (rule less_trans [of _ 10]) simp_all
  ultimately show ?case by (simp add: unsigned_ucast_eq take_bit_eq_mod)
next
  case (Suc i)
  have "unat (v div 10) = unat v div 10" by (simp add: unat_div)
  with Suc show ?case by (simp add: div_mult2_eq)
qed

lemma nthDigit_less: "unat (nthDigit v i) < 10"
  by (simp add: unat_nthDigit)

lemma length_separateInit: "length (fst (separateInit v ds)) = length ds"
  by (induction ds arbitrary: v) (simp_all add: split_def Let_def)

lemma length_separateWait: "length (fst (separateWait v ds)) = length ds"
  by (induction ds arbitrary: v) (simp_all add: split_def Let_def)

lemma separateInit_nth:
  "i < length ds \<Longrightarrow>
     fst (separateInit v ds) ! i = (ds ! i)\<lparr>prev := nthDigit v i, curr := nthDigit v i\<rparr>"
proof (induction ds arbitrary: v i)
  case Nil
  then show ?case by simp
next
  case (Cons d ds)
  then show ?case by (cases i) (simp_all add: split_def Let_def)
qed

lemma separateWait_nth:
  "i < length ds \<Longrightarrow> fst (separateWait v ds) ! i = retarget (nthDigit v i) (ds ! i)"
proof (induction ds arbitrary: v i)
  case Nil
  then show ?case by simp
next
  case (Cons d ds)
  then show ?case by (cases i) (simp_all add: split_def Let_def)
qed

lemma unat_separateWait_rest: "unat (snd (separateWait v ds)) = unat v div 10 ^ length ds"
proof (induction ds arbitrary: v)
  case Nil
  show ?case by simp
next
  case (Cons d ds)
  have "unat (v div 10) = unat v div 10" by (simp add: unat_div)
  with Cons show ?case by (simp add: split_def Let_def div_mult2_eq)
qed

section \<open>The state machine step by step\<close>

lemma digits_animate:
  "digits (snd (snd (animate now v s)))
     = map (\<lambda>d. snd (tick now (valueLast s < v) d)) (digits s)"
  by (simp add: animate_def Let_def)

lemma state_animate:
  "state (snd (snd (animate now v s)))
     = (if list_all (\<lambda>d. prev d = curr d) (map (\<lambda>d. snd (tick now (valueLast s < v) d)) (digits s))
        then ST_WAIT else state s)"
  by (simp add: animate_def Let_def comp_def)

lemma poll_INIT:
  "state s = ST_INIT \<Longrightarrow>
     poll s (now, v) =
       s\<lparr>digits := map (\<lambda>d. d\<lparr>charMap := take (unat CHAR_ROWS) (digitsMap ! unat (curr d))\<rparr>)
                       (fst (separateInit v (digits s))),
         state := ST_WAIT\<rparr>"
  by (simp add: poll_def displayValue_def split_def Let_def)

lemma poll_WAIT_same:
  "state s = ST_WAIT \<Longrightarrow> valueLast s = v \<Longrightarrow> displayValue now v s = (True, [], s)"
  by (simp add: displayValue_def)

lemma poll_WAIT_new:
  "state s = ST_WAIT \<Longrightarrow> valueLast s \<noteq> v \<Longrightarrow>
     displayValue now v s =
       animate now (snd (separateWait v (digits s)))
         (s\<lparr>state := ST_ANIM, digits := fst (separateWait v (digits s))\<rparr>)"
  by (simp add: displayValue_def split_def Let_def)

lemma poll_ANIM: "state s = ST_ANIM \<Longrightarrow> displayValue now v s = animate now v s"
  by (simp add: displayValue_def)

lemma tick_curr: "curr (snd (tick now up d)) = curr d"
  by (simp add: tick_def Let_def)

lemma tick_slot_ok: "slot_ok d \<Longrightarrow> slot_ok (snd (tick now up d))"
proof (cases "prev d \<noteq> curr d \<and> ucast ANIMATION_FRAME_TIME \<le> now - timeLastFrame d")
  case False
  assume "slot_ok d"
  with False show ?thesis by (auto simp: tick_def)
next
  case True
  assume ok: "slot_ok d"
  with True have i8: "unat (index d) \<le> 8" by (auto simp: slot_ok_def)
  from True have a: "prev d \<noteq> curr d" and b: "ucast ANIMATION_FRAME_TIME \<le> now - timeLastFrame d"
    by simp_all
  note tf = tick_frame [OF a b i8, of up]
  have "length (charMap (snd (tick now up d))) = 8"
    using True by (simp add: tick_def Let_def length_blendUp length_blendDown)
  with tf ok i8 show ?thesis
    unfolding slot_ok_def by (cases "unat (index d) = 8") auto
qed

lemma retarget_slot_ok: "slot_ok d \<Longrightarrow> slot_ok (retarget (nthDigit v i) d)"
  by (simp add: slot_ok_def retarget_def nthDigit_less)

lemma list_all_nth: "list_all P xs = (\<forall>i < length xs. P (xs ! i))"
  by (simp add: list_all_iff all_set_conv_all_nth)

lemma animate_ok:
  assumes "length (digits s) = 8" and "list_all slot_ok (digits s)" and "state s = ST_ANIM"
  shows "fsm_ok (snd (snd (animate now v s)))"
proof -
  let ?ds = "map (\<lambda>d. snd (tick now (valueLast s < v) d)) (digits s)"
  from assms(2) have "list_all slot_ok ?ds"
    by (simp add: list_all_iff tick_slot_ok)
  with assms(1,3) show ?thesis
    unfolding fsm_ok_def digits_animate state_animate by simp
qed

lemma fsm_ok_init: "fsm_ok fsm_init"
  by (simp add: fsm_ok_def fsm_init_def digit0_def slot_ok_def MAX_DIGITS_def CHAR_ROWS_def
      list_all_iff)

lemma fsm_ok_poll:
  assumes "fsm_ok s"
  shows "fsm_ok (poll s c)"
proof -
  obtain now v where c: "c = (now, v)" by (cases c)
  from assms have len: "length (digits s) = 8" and ok: "list_all slot_ok (digits s)"
    by (simp_all add: fsm_ok_def)
  show ?thesis
  proof (cases "state s")
    case ST_INIT
    have "slot_ok (d\<lparr>prev := nthDigit v i, curr := nthDigit v i,
                     charMap := take (unat CHAR_ROWS) (digitsMap ! unat (nthDigit v i))\<rparr>)" for d i
      by (simp add: slot_ok_def nthDigit_less rows_unat glyph_rows)
    then show ?thesis
      unfolding c poll_INIT [OF ST_INIT] fsm_ok_def
      by (simp add: list_all_nth length_separateInit separateInit_nth len)
  next
    case ST_WAIT
    show ?thesis
    proof (cases "valueLast s = v")
      case True
      with ST_WAIT assms show ?thesis by (simp add: c poll_def poll_WAIT_same)
    next
      case False
      let ?s = "s\<lparr>state := ST_ANIM, digits := fst (separateWait v (digits s))\<rparr>"
      have "list_all slot_ok (digits ?s)"
        using ok by (simp add: list_all_nth length_separateWait separateWait_nth retarget_slot_ok)
      moreover have "length (digits ?s) = 8" by (simp add: length_separateWait len)
      moreover have "state ?s = ST_ANIM" by simp
      ultimately have "fsm_ok (snd (snd (animate now (snd (separateWait v (digits s))) ?s)))"
        by (intro animate_ok)
      with ST_WAIT False show ?thesis by (simp add: c poll_def poll_WAIT_new)
    qed
  next
    case ST_ANIM
    with animate_ok [OF len ok ST_ANIM] show ?thesis by (simp add: c poll_def poll_ANIM)
  qed
qed

lemma fsm_ok_polls: "fsm_ok s \<Longrightarrow> fsm_ok (polls cs s)"
  unfolding polls_def by (induction cs arbitrary: s) (simp_all add: fsm_ok_poll)

lemma reachable_ok: "fsm_ok (polls cs fsm_init)"
  by (rule fsm_ok_polls) (rule fsm_ok_init)

lemma polls_Nil: "polls [] s = s" and polls_Cons: "polls (c # cs) s = polls cs (poll s c)"
  by (simp_all add: polls_def)

section \<open>What the display shows after initialisation\<close>

lemma upt8: "[0..<8] = [0, 1, 2, 3, 4, 5, 6, 7]"
  by code_simp

lemma updateDisplay_init:
  "updateDisplay r c True ds =
     [CreateChar 0 (charMap (ds ! 7)), SetCursor c r, WriteChar 0,
      CreateChar 1 (charMap (ds ! 6)), SetCursor (c + 1) r, WriteChar 1,
      CreateChar 2 (charMap (ds ! 5)), SetCursor (c + 2) r, WriteChar 2,
      CreateChar 3 (charMap (ds ! 4)), SetCursor (c + 3) r, WriteChar 3,
      CreateChar 4 (charMap (ds ! 3)), SetCursor (c + 4) r, WriteChar 4,
      CreateChar 5 (charMap (ds ! 2)), SetCursor (c + 5) r, WriteChar 5,
      CreateChar 6 (charMap (ds ! 1)), SetCursor (c + 6) r, WriteChar 6,
      CreateChar 7 (charMap (ds ! 0)), SetCursor (c + 7) r, WriteChar 7]"
  by (simp add: updateDisplay_def MAX_DIGITS_def upt8)

lemma cgram_init:
  "cgram (lcd_exec (updateDisplay r c True ds) l) =
     (cgram l)(0 := charMap (ds ! 7), 1 := charMap (ds ! 6), 2 := charMap (ds ! 5),
               3 := charMap (ds ! 4), 4 := charMap (ds ! 3), 5 := charMap (ds ! 2),
               6 := charMap (ds ! 1), 7 := charMap (ds ! 0))"
  unfolding updateDisplay_init lcd_exec_def by simp

lemma cells_init:
  "cells (lcd_exec (updateDisplay r c True ds) l) =
     (cells l)((c, r) \<mapsto> 0, (c + 1, r) \<mapsto> 1, (c + 2, r) \<mapsto> 2, (c + 3, r) \<mapsto> 3,
               (c + 4, r) \<mapsto> 4, (c + 5, r) \<mapsto> 5, (c + 6, r) \<mapsto> 6, (c + 7, r) \<mapsto> 7)"
  unfolding updateDisplay_init lcd_exec_def by simp

lemma shown_init:
  assumes "i < 8"
  shows "shown (lcd_exec (updateDisplay r c True ds) l) (c + of_nat (7 - i)) r
           = Some (charMap (ds ! i))"
proof -
  from assms have "i = 0 \<or> i = 1 \<or> i = 2 \<or> i = 3 \<or> i = 4 \<or> i = 5 \<or> i = 6 \<or> i = 7"
    by arith
  then show ?thesis
    by (elim disjE) (simp_all add: shown_def cgram_init cells_init)
qed

section \<open>Digits of the supplied value\<close>

lemma digits_poll_INIT:
  assumes "state s = ST_INIT" and "i < length (digits s)"
  shows "digits (poll s (now, v)) ! i =
           (digits s ! i)\<lparr>prev := nthDigit v i, curr := nthDigit v i,
                          charMap := take (unat CHAR_ROWS) (digitsMap ! unat (nthDigit v i))\<rparr>"
  using assms by (simp add: poll_INIT length_separateInit separateInit_nth)

lemma digits_poll_WAIT_new:
  assumes "state s = ST_WAIT" and "valueLast s \<noteq> v" and "i < length (digits s)"
  shows "\<exists>up. digits (poll s (now, v)) ! i
                = snd (tick now up (retarget (nthDigit v i) (digits s ! i)))"
  using assms
  by (auto simp: poll_def poll_WAIT_new digits_animate length_separateWait separateWait_nth)

lemma digits_poll_ANIM:
  assumes "state s = ST_ANIM" and "i < length (digits s)"
  shows "digits (poll s (now, v)) ! i = snd (tick now (valueLast s < v) (digits s ! i))"
  using assms by (simp add: poll_def poll_ANIM digits_animate)

lemma length_digits_poll: "length (digits (poll s c)) = length (digits s)"
proof -
  obtain now v where c: "c = (now, v)" by (cases c)
  show ?thesis
  proof (cases "state s")
    case ST_INIT
    then show ?thesis by (simp add: c poll_INIT length_separateInit)
  next
    case ST_WAIT
    then show ?thesis
      by (cases "valueLast s = v")
         (simp_all add: c poll_def poll_WAIT_same poll_WAIT_new digits_animate length_separateWait)
  next
    case ST_ANIM
    then show ?thesis by (simp add: c poll_def poll_ANIM digits_animate)
  qed
qed

lemma glyph_take: "n < 10 \<Longrightarrow> take (unat CHAR_ROWS) (digitsMap ! n) = digitsMap ! n"
  by (simp add: rows_unat glyph_rows)

lemma low_digits: "i < 8 \<Longrightarrow> ((n :: nat) mod 10 ^ 8 div 10 ^ i) mod 10 = (n div 10 ^ i) mod 10"
proof -
  assume "i < 8"
  then have e: "(10 :: nat) ^ 8 = 10 ^ i * 10 ^ (8 - i)"
    by (simp flip: power_add)
  have "(10 :: nat) dvd 10 ^ (8 - i)"
    using \<open>i < 8\<close> by (simp add: dvd_power)
  have "n mod 10 ^ 8 div 10 ^ i = (n div 10 ^ i) mod 10 ^ (8 - i)"
    unfolding e by (simp add: mod_mult2_eq)
  then show ?thesis
    using \<open>10 dvd 10 ^ (8 - i)\<close> by (simp add: mod_mod_cancel)
qed

text \<open>
  C5. In every state a run reaches and for every slot \<open>i\<close> below eight: the first call
  gives slot \<open>i\<close> the digit \<open>(value / 10^i) mod 10\<close> as both previous and current digit
  with that digit's glyph, shows this glyph in column \<^verbatim>\<open>DISP_C\<close> + 7 - \<open>i\<close> of row
  \<^verbatim>\<open>DISP_R\<close> (slot 0, the least significant digit, in the rightmost of the eight
  columns) and returns true; a call in \<^verbatim>\<open>ST_WAIT\<close> with a value other than
  \<^verbatim>\<open>valueLast\<close> makes that digit the slot's current digit. The digit is that of the
  value modulo \<open>10^8\<close>: higher digits have no slot, and the call returns as usual.
\<close>

theorem digits_of_value:
  assumes "s = polls cs fsm_init" and "i < unat MAX_DIGITS"
  shows "(state s = ST_INIT \<longrightarrow>
            unat (prev (digits (poll s (now, v)) ! i)) = (unat v div 10 ^ i) mod 10
            \<and> unat (curr (digits (poll s (now, v)) ! i)) = (unat v div 10 ^ i) mod 10
            \<and> charMap (digits (poll s (now, v)) ! i) = digitsMap ! ((unat v div 10 ^ i) mod 10)
            \<and> shown (lcd_exec (fst (snd (displayValue now v s))) l)
                 (DISP_C + of_nat (unat MAX_DIGITS - 1 - i)) DISP_R
                 = Some (digitsMap ! ((unat v div 10 ^ i) mod 10))
            \<and> fst (displayValue now v s))
         \<and> (state s = ST_WAIT \<and> valueLast s \<noteq> v \<longrightarrow>
            unat (curr (digits (poll s (now, v)) ! i)) = (unat v div 10 ^ i) mod 10)
         \<and> (unat v div 10 ^ i) mod 10 = (unat v mod 10 ^ unat MAX_DIGITS div 10 ^ i) mod 10"
proof -
  from assms(1) have ok: "fsm_ok s" by (simp add: reachable_ok)
  then have len: "length (digits s) = 8" by (simp add: fsm_ok_def)
  from assms(2) have i8: "i < 8" by (simp add: MAX_DIGITS_def)
  let ?n = "(unat v div 10 ^ i) mod 10"
  have n: "unat (nthDigit v i) = ?n" by (rule unat_nthDigit)
  have init: "unat (prev (digits (poll s (now, v)) ! i)) = ?n
              \<and> unat (curr (digits (poll s (now, v)) ! i)) = ?n
              \<and> charMap (digits (poll s (now, v)) ! i) = digitsMap ! ?n
              \<and> shown (lcd_exec (fst (snd (displayValue now v s))) l)
                   (DISP_C + of_nat (unat MAX_DIGITS - 1 - i)) DISP_R = Some (digitsMap ! ?n)
              \<and> fst (displayValue now v s)"
    if st: "state s = ST_INIT"
  proof -
    from i8 len have il: "i < length (digits s)" by simp
    note d = digits_poll_INIT [OF st il, of now v]
    have g: "charMap (digits (poll s (now, v)) ! i) = digitsMap ! ?n"
      unfolding d using n by (simp add: glyph_take)
    have calls: "fst (snd (displayValue now v s))
                   = updateDisplay DISP_R DISP_C True (digits (poll s (now, v)))"
      using st by (simp add: poll_def displayValue_def split_def Let_def)
    have "unat MAX_DIGITS - 1 - i = 7 - i" by (simp add: MAX_DIGITS_def)
    then have "shown (lcd_exec (fst (snd (displayValue now v s))) l)
                 (DISP_C + of_nat (unat MAX_DIGITS - 1 - i)) DISP_R
               = Some (charMap (digits (poll s (now, v)) ! i))"
      unfolding calls using shown_init [OF i8] by simp
    moreover have "fst (displayValue now v s)"
      using st by (simp add: displayValue_def split_def Let_def)
    ultimately show ?thesis using g n by (simp add: d)
  qed
  have wait: "unat (curr (digits (poll s (now, v)) ! i)) = ?n"
    if st: "state s = ST_WAIT" and nv: "valueLast s \<noteq> v"
  proof -
    from i8 len have il: "i < length (digits s)" by simp
    from digits_poll_WAIT_new [OF st nv il, of now] n show ?thesis
      by (auto simp: tick_curr retarget_def)
  qed
  have "?n = (unat v mod 10 ^ unat MAX_DIGITS div 10 ^ i) mod 10"
    using low_digits [OF i8, of "unat v"] by (simp add: MAX_DIGITS_def)
  with init wait show ?thesis by blast
qed

theorem digits_of_value_witness:
  "state fsm_init = ST_INIT
   \<and> unat (prev (digits (poll fsm_init (1000, 4012345678)) ! 1)) = 7
   \<and> unat (curr (digits (poll fsm_init (1000, 4012345678)) ! 1)) = 7
   \<and> charMap (digits (poll fsm_init (1000, 4012345678)) ! 1) = digitsMap ! 7
   \<and> shown (lcd_exec (fst (snd (displayValue 1000 4012345678 fsm_init)))
               \<lparr>cgram = \<lambda>n. [], cursor = (0, 0), cells = \<lambda>p. None\<rparr>) 6 1
        = Some (digitsMap ! 7)
   \<and> fst (displayValue 1000 4012345678 fsm_init)
   \<and> state (polls [(1000, 12345678)] fsm_init) = ST_WAIT
   \<and> valueLast (polls [(1000, 12345678)] fsm_init) \<noteq> 12345679
   \<and> unat (curr (digits (poll (polls [(1000, 12345678)] fsm_init) (1100, 12345679)) ! 0)) = 9"
proof -
  let ?l = "\<lparr>cgram = \<lambda>n. [], cursor = (0, 0), cells = \<lambda>p. None\<rparr> :: lcd_t"
  have r: "fsm_init = polls [] fsm_init" by (simp add: polls_Nil)
  have i: "1 < unat MAX_DIGITS" by (simp add: MAX_DIGITS_def)
  have st: "state fsm_init = ST_INIT" by (simp add: fsm_init_def)
  have n: "(unat (4012345678 :: u32) div 10 ^ 1) mod 10 = 7" by simp
  have col: "DISP_C + of_nat (unat MAX_DIGITS - 1 - 1) = 6" and row: "DISP_R = 1"
    by (simp_all add: DISP_C_def DISP_R_def MAX_DIGITS_def)
  from digits_of_value [OF r i, of 1000 4012345678 ?l] st
  have a: "unat (prev (digits (poll fsm_init (1000, 4012345678)) ! 1)) = 7
           \<and> unat (curr (digits (poll fsm_init (1000, 4012345678)) ! 1)) = 7
           \<and> charMap (digits (poll fsm_init (1000, 4012345678)) ! 1) = digitsMap ! 7
           \<and> shown (lcd_exec (fst (snd (displayValue 1000 4012345678 fsm_init))) ?l) 6 1
                = Some (digitsMap ! 7)
           \<and> fst (displayValue 1000 4012345678 fsm_init)"
    unfolding n col row by blast
  let ?s = "polls [(1000, 12345678)] fsm_init"
  have r': "?s = polls [(1000, 12345678)] fsm_init" by simp
  have i': "0 < unat MAX_DIGITS" by (simp add: MAX_DIGITS_def)
  have st': "state ?s = ST_WAIT" by code_simp
  have nv: "valueLast ?s \<noteq> 12345679" by code_simp
  have n': "(unat (12345679 :: u32) div 10 ^ 0) mod 10 = 9" by simp
  from digits_of_value [OF r' i', of 1100 12345679 ?l] st' nv
  have b: "unat (curr (digits (poll ?s (1100, 12345679)) ! 0)) = 9"
    unfolding n' by blast
  from st a st' nv b show ?thesis by blast
qed

section \<open>Idle polls\<close>

lemma idle_polls: "state s = ST_WAIT \<Longrightarrow> polls (map (\<lambda>t. (t, valueLast s)) ts) s = s"
  by (induction ts) (simp_all add: polls_def poll_def poll_WAIT_same)

text \<open>
  C7. In \<^verbatim>\<open>ST_WAIT\<close> with \<^verbatim>\<open>valueLast\<close> equal to the supplied value, a call returns
  true, makes no display call and leaves the whole state (every slot, \<^verbatim>\<open>valueLast\<close>,
  the machine state) as it was, at any clock reading; so does any number of such calls
  in a row.
\<close>

theorem idle_poll_idempotent:
  assumes "state s = ST_WAIT" and "valueLast s = v"
  shows "displayValue now v s = (True, [], s) \<and> polls (map (\<lambda>t. (t, v)) ts) s = s"
  using assms idle_polls [of s ts] by (simp add: poll_WAIT_same)

theorem idle_poll_idempotent_witness:
  "state (polls run_up fsm_init) = ST_WAIT
   \<and> valueLast (polls run_up fsm_init) = 12345679
   \<and> displayValue 1600 12345679 (polls run_up fsm_init) = (True, [], polls run_up fsm_init)
   \<and> polls (map (\<lambda>t. (t, 12345679)) [1600, 1601, 5000, 7]) (polls run_up fsm_init)
        = polls run_up fsm_init"
proof -
  have st: "state (polls run_up fsm_init) = ST_WAIT" by code_simp
  have vl: "valueLast (polls run_up fsm_init) = 12345679" by code_simp
  from idle_poll_idempotent [OF st vl, of 1600 "[1600, 1601, 5000, 7]"] st vl
  show ?thesis by blast
qed

section \<open>Progress per poll\<close>

lemma tick_index:
  "index (snd (tick now up d)) = index d \<or> index (snd (tick now up d)) = index d + 1"
  by (simp add: tick_def Let_def)

lemma unat_succ_le: "unat (w + 1) \<le> unat w + 1" for w :: u8
  by (simp add: unat_word_ariths)

text \<open>
  C9. One call moves a slot's \<^verbatim>\<open>index\<close> by at most one step, whatever the clock reading:
  in \<^verbatim>\<open>ST_INIT\<close> and \<^verbatim>\<open>ST_ANIM\<close>, and in \<^verbatim>\<open>ST_WAIT\<close> with an unchanged value, the new
  index is the old one or the old one plus one; a call that takes up a new value first
  resets the index to 0 and then leaves it at 0 or 1. In no case is the new index more
  than one above the old.
\<close>

theorem poll_advances_at_most_one:
  assumes "i < length (digits s)"
  shows "unat (index (digits (poll s (now, v)) ! i)) \<le> unat (index (digits s ! i)) + 1
         \<and> (if state s = ST_WAIT \<and> valueLast s \<noteq> v
             then index (digits (poll s (now, v)) ! i) = 0
                  \<or> index (digits (poll s (now, v)) ! i) = 1
             else index (digits (poll s (now, v)) ! i) = index (digits s ! i)
                  \<or> index (digits (poll s (now, v)) ! i) = index (digits s ! i) + 1)"
proof (cases "state s")
  case ST_INIT
  with assms show ?thesis by (simp add: digits_poll_INIT)
next
  case ST_ANIM
  with assms tick_index [of now "valueLast s < v" "digits s ! i"]
    unat_succ_le [of "index (digits s ! i)"]
  show ?thesis by (auto simp: digits_poll_ANIM)
next
  case ST_WAIT
  show ?thesis
  proof (cases "valueLast s = v")
    case True
    with ST_WAIT show ?thesis by (simp add: poll_def poll_WAIT_same)
  next
    case False
    from digits_poll_WAIT_new [OF ST_WAIT False assms, of now] obtain up
      where d: "digits (poll s (now, v)) ! i
                  = snd (tick now up (retarget (nthDigit v i) (digits s ! i)))" by blast
    from tick_index [of now up "retarget (nthDigit v i) (digits s ! i)"]
    have "index (digits (poll s (now, v)) ! i) = 0 \<or> index (digits (poll s (now, v)) ! i) = 1"
      unfolding d by (simp add: retarget_def)
    with ST_WAIT False show ?thesis by auto
  qed
qed

theorem poll_advances_at_most_one_witness:
  "(0 :: nat) < length (digits (polls [(1000, 12345678), (1100, 12345679)] fsm_init))
   \<and> index (digits (polls [(1000, 12345678), (1100, 12345679)] fsm_init) ! 0) = 1
   \<and> unat (index (digits (poll (polls [(1000, 12345678), (1100, 12345679)] fsm_init)
                             (900000, 12345679)) ! 0)) \<le> 2
   \<and> (index (digits (poll (polls [(1000, 12345678), (1100, 12345679)] fsm_init)
                         (900000, 12345679)) ! 0) = 1
        \<or> index (digits (poll (polls [(1000, 12345678), (1100, 12345679)] fsm_init)
                            (900000, 12345679)) ! 0) = 2)"
proof -
  let ?s = "polls [(1000, 12345678), (1100, 12345679)] fsm_init"
  have l: "0 < length (digits ?s)" by code_simp
  have i: "index (digits ?s ! 0) = 1" by code_simp
  have st: "state ?s = ST_ANIM" by code_simp
  from poll_advances_at_most_one [OF l, of 900000 12345679] st i l
  show ?thesis by simp
qed

section \<open>Slots whose digit does not change\<close>

lemma anim_trace_settled:
  assumes "i < length (digits s)" and "prev (digits s ! i) = curr (digits s ! i)"
    and "s' \<in> set (anim_trace ps s)"
  shows "digits s' ! i = digits s ! i"
  using assms
proof (induction ps arbitrary: s)
  case Nil
  then show ?case by simp
next
  case (Cons c ps)
  obtain now v where c: "c = (now, v)" by (cases c)
  show ?case
  proof (cases "s' = s")
    case True
    then show ?thesis by simp
  next
    case False
    with Cons.prems(3) have an: "state s = ST_ANIM" and tr: "s' \<in> set (anim_trace ps (poll s c))"
      by (auto split: if_splits)
    from Cons.prems(2) have "tick now (valueLast s < v) (digits s ! i) = (False, digits s ! i)"
      by (simp add: tick_idle)
    with an Cons.prems(1) have same: "digits (poll s c) ! i = digits s ! i"
      by (simp add: c digits_poll_ANIM)
    from Cons.prems(1) have "i < length (digits (poll s c))"
      by (simp add: length_digits_poll)
    from Cons.IH [OF this _ tr] same Cons.prems(2) show ?thesis by simp
  qed
qed

lemma settled_when_waiting:
  assumes "fsm_ok s" and "state s = ST_WAIT" and "i < 8"
  shows "prev (digits s ! i) = curr (digits s ! i)" and "unat (curr (digits s ! i)) < 10"
    and "i < length (digits s)"
proof -
  from assms(1) have len: "length (digits s) = 8" by (simp add: fsm_ok_def)
  with assms(3) show "i < length (digits s)" by simp
  from assms(1,2) have "list_all (\<lambda>d. prev d = curr d) (digits s)" by (simp add: fsm_ok_def)
  with len assms(3) show "prev (digits s ! i) = curr (digits s ! i)" by (simp add: list_all_nth)
  from assms(1) have "list_all slot_ok (digits s)" by (simp add: fsm_ok_def)
  with len assms(3) show "unat (curr (digits s ! i)) < 10" by (simp add: list_all_nth slot_ok_def)
qed

text \<open>
  C6. The machine, in a state a run has reached, is in \<^verbatim>\<open>ST_WAIT\<close> and is called with a
  value other than \<^verbatim>\<open>valueLast\<close>. A slot whose digit of the new value equals its settled
  digit keeps \<^verbatim>\<open>prev == curr\<close>, its digit and its bitmap in every state from this call
  until the machine is back in \<^verbatim>\<open>ST_WAIT\<close>, whatever is polled meanwhile. A slot whose
  digit differs is in flight after the call: \<^verbatim>\<open>prev\<close> is still the old digit, \<^verbatim>\<open>curr\<close> is
  the new one.
\<close>

theorem unchanged_digits_stay_settled:
  assumes "s = polls cs fsm_init" and "state s = ST_WAIT" and "valueLast s \<noteq> v"
    and "i < unat MAX_DIGITS" and "s' \<in> set (anim_trace ps (poll s (now, v)))"
  shows "((unat v div 10 ^ i) mod 10 = unat (curr (digits s ! i)) \<longrightarrow>
            prev (digits s' ! i) = curr (digits s' ! i)
            \<and> curr (digits s' ! i) = curr (digits s ! i)
            \<and> charMap (digits s' ! i) = charMap (digits s ! i))
         \<and> ((unat v div 10 ^ i) mod 10 \<noteq> unat (curr (digits s ! i)) \<longrightarrow>
            prev (digits (poll s (now, v)) ! i) \<noteq> curr (digits (poll s (now, v)) ! i)
            \<and> prev (digits (poll s (now, v)) ! i) = curr (digits s ! i)
            \<and> unat (curr (digits (poll s (now, v)) ! i)) = (unat v div 10 ^ i) mod 10)"
proof -
  from assms(1) have ok: "fsm_ok s" by (simp add: reachable_ok)
  from assms(4) have i8: "i < 8" by (simp add: MAX_DIGITS_def)
  note sw = settled_when_waiting [OF ok assms(2) i8]
  let ?d = "digits s ! i"
  let ?r = "retarget (nthDigit v i) ?d"
  from digits_poll_WAIT_new [OF assms(2,3) sw(3), of now] obtain up
    where d1: "digits (poll s (now, v)) ! i = snd (tick now up ?r)" by blast
  have n: "unat (nthDigit v i) = (unat v div 10 ^ i) mod 10" by (rule unat_nthDigit)
  have same: "prev (digits s' ! i) = curr (digits s' ! i)
              \<and> curr (digits s' ! i) = curr ?d \<and> charMap (digits s' ! i) = charMap ?d"
    if e: "(unat v div 10 ^ i) mod 10 = unat (curr ?d)"
  proof -
    from e n have "nthDigit v i = curr ?d" by (simp add: word_unat_eq_iff)
    with sw(1) have r: "prev ?r = curr ?r" "curr ?r = curr ?d" "charMap ?r = charMap ?d"
      by (simp_all add: retarget_def)
    then have "tick now up ?r = (False, ?r)" by (simp add: tick_idle)
    with d1 have d1': "digits (poll s (now, v)) ! i = ?r" by simp
    from sw(3) have "i < length (digits (poll s (now, v)))" by (simp add: length_digits_poll)
    from anim_trace_settled [OF this _ assms(5)] d1' r
    have "digits s' ! i = ?r" by simp
    with r show ?thesis by simp
  qed
  have diff: "prev (digits (poll s (now, v)) ! i) \<noteq> curr (digits (poll s (now, v)) ! i)
              \<and> prev (digits (poll s (now, v)) ! i) = curr ?d
              \<and> unat (curr (digits (poll s (now, v)) ! i)) = (unat v div 10 ^ i) mod 10"
    if e: "(unat v div 10 ^ i) mod 10 \<noteq> unat (curr ?d)"
  proof -
    from e n have ne: "nthDigit v i \<noteq> curr ?d" by auto
    from retarget_fresh [OF sw(1) ne]
    have a: "prev ?r \<noteq> curr ?r" and b: "index ?r = 0" and c: "curr ?r = nthDigit v i"
      by blast+
    have p: "prev ?r = curr ?d" using sw(1) by (simp add: retarget_def)
    show ?thesis
    proof (cases "ucast ANIMATION_FRAME_TIME \<le> now - timeLastFrame ?r")
      case True
      from b have "unat (index ?r) \<le> 8" by simp
      note tf = tick_frame [OF a True this, of up]
      from tf(4,5) a b c p n show ?thesis unfolding d1 by simp
    next
      case False
      then have "tick now up ?r = (False, ?r)" by (simp add: tick_idle not_le)
      with a c p n show ?thesis unfolding d1 by simp
    qed
  qed
  from same diff show ?thesis by blast
qed

lemma anim_trace_last: "last (anim_trace ps s) \<in> set (anim_trace ps s)"
  by (cases ps) simp_all

theorem unchanged_digits_stay_settled_witness:
  "state (polls [(1000, 12345678)] fsm_init) = ST_WAIT
   \<and> valueLast (polls [(1000, 12345678)] fsm_init) \<noteq> 12345679
   \<and> (unat (12345679 :: u32) div 10 ^ 1) mod 10
        = unat (curr (digits (polls [(1000, 12345678)] fsm_init) ! 1))
   \<and> prev (digits (last (anim_trace (tl (tl run_up))
                          (poll (polls [(1000, 12345678)] fsm_init) (1100, 12345679)))) ! 1)
        = curr (digits (last (anim_trace (tl (tl run_up))
                          (poll (polls [(1000, 12345678)] fsm_init) (1100, 12345679)))) ! 1)
   \<and> curr (digits (last (anim_trace (tl (tl run_up))
                          (poll (polls [(1000, 12345678)] fsm_init) (1100, 12345679)))) ! 1) = 7
   \<and> charMap (digits (last (anim_trace (tl (tl run_up))
                          (poll (polls [(1000, 12345678)] fsm_init) (1100, 12345679)))) ! 1)
        = digitsMap ! 7
   \<and> (unat (12345679 :: u32) div 10 ^ 0) mod 10
        \<noteq> unat (curr (digits (polls [(1000, 12345678)] fsm_init) ! 0))
   \<and> prev (digits (poll (polls [(1000, 12345678)] fsm_init) (1100, 12345679)) ! 0) = 8
   \<and> curr (digits (poll (polls [(1000, 12345678)] fsm_init) (1100, 12345679)) ! 0) = 9"
proof -
  let ?s = "polls [(1000, 12345678)] fsm_init"
  let ?e = "last (anim_trace (tl (tl run_up)) (poll ?s (1100, 12345679)))"
  have r: "?s = polls [(1000, 12345678)] fsm_init" by simp
  have st: "state ?s = ST_WAIT" by code_simp
  have nv: "valueLast ?s \<noteq> 12345679" by code_simp
  have i1: "1 < unat MAX_DIGITS" and i0: "0 < unat MAX_DIGITS" by (simp_all add: MAX_DIGITS_def)
  have tr: "?e \<in> set (anim_trace (tl (tl run_up)) (poll ?s (1100, 12345679)))"
    by (rule anim_trace_last)
  have c1: "curr (digits ?s ! 1) = 7" and m1: "charMap (digits ?s ! 1) = digitsMap ! 7"
    and c0: "curr (digits ?s ! 0) = 8" by code_simp+
  have e1: "(unat (12345679 :: u32) div 10 ^ 1) mod 10 = unat (curr (digits ?s ! 1))"
    unfolding c1 by simp
  have e0: "(unat (12345679 :: u32) div 10 ^ 0) mod 10 \<noteq> unat (curr (digits ?s ! 0))"
    unfolding c0 by simp
  from unchanged_digits_stay_settled [OF r st nv i1 tr] e1
  have a: "prev (digits ?e ! 1) = curr (digits ?e ! 1) \<and> curr (digits ?e ! 1) = 7
           \<and> charMap (digits ?e ! 1) = digitsMap ! 7"
    unfolding c1 m1 by blast
  from unchanged_digits_stay_settled [OF r st nv i0 tr] e0
  have "prev (digits (poll ?s (1100, 12345679)) ! 0) = curr (digits ?s ! 0)
        \<and> unat (curr (digits (poll ?s (1100, 12345679)) ! 0)) = (unat (12345679 :: u32) div 10 ^ 0) mod 10"
    by blast
  then have b: "prev (digits (poll ?s (1100, 12345679)) ! 0) = 8
                \<and> curr (digits (poll ?s (1100, 12345679)) ! 0) = 9"
    unfolding c0 by (simp add: word_unat_eq_iff)
  from st nv e1 a e0 b show ?thesis by blast
qed

text \<open>
  The example of C6 run through: from 12345678 to 12345679 only slot 0 is rewritten;
  slots 1 to 7 hold the same records when the machine is back in \<^verbatim>\<open>ST_WAIT\<close>
  as after the first call.
\<close>

lemma example_12345678_to_12345679:
  "state (polls run_up fsm_init) = ST_WAIT
   \<and> tl (digits (polls run_up fsm_init)) = tl (digits (polls [(1000, 12345678)] fsm_init))
   \<and> hd (digits (polls run_up fsm_init))
        = \<lparr>timeLastFrame = 1500, prev = 9, curr = 9, index = 9, charMap = digitsMap ! 9\<rparr>"
  by code_simp

section \<open>Idle polls when \<^verbatim>\<open>valueLast\<close> is not the value shown\<close>

text \<open>
  An idle machine whose slots show the digits of the supplied value while \<^verbatim>\<open>valueLast\<close>
  holds something else, as it does after the first call: the call passes through
  \<^verbatim>\<open>ST_ANIM\<close> without a frame, returns true, makes no display call, ends in \<^verbatim>\<open>ST_WAIT\<close>
  and leaves digit and bitmap of every slot alone.
\<close>

lemma idle_showing_value:
  assumes "fsm_ok s" and "state s = ST_WAIT"
    and "\<forall>i<8. curr (digits s ! i) = nthDigit v i"
  shows "fst (displayValue now v s) \<and> fst (snd (displayValue now v s)) = []
         \<and> state (poll s (now, v)) = ST_WAIT
         \<and> (\<forall>i<8. prev (digits (poll s (now, v)) ! i) = prev (digits s ! i)
                  \<and> curr (digits (poll s (now, v)) ! i) = curr (digits s ! i)
                  \<and> charMap (digits (poll s (now, v)) ! i) = charMap (digits s ! i))"
proof (cases "valueLast s = v")
  case True
  with assms(2) show ?thesis by (simp add: poll_def poll_WAIT_same)
next
  case False
  let ?ds = "fst (separateWait v (digits s))"
  let ?s = "s\<lparr>state := ST_ANIM, digits := ?ds\<rparr>"
  let ?v = "snd (separateWait v (digits s))"
  from assms(1) have len: "length (digits s) = 8" by (simp add: fsm_ok_def)
  have eq: "?ds ! i = (digits s ! i)\<lparr>index := 0, timeLastFrame := 0\<rparr>" if "i < 8" for i
  proof -
    note sw = settled_when_waiting [OF assms(1,2) that]
    from assms(3) that have "nthDigit v i = curr (digits s ! i)" by simp
    with sw len that show ?thesis by (simp add: separateWait_nth retarget_def)
  qed
  have st: "prev (?ds ! i) = curr (?ds ! i)" if "i < 8" for i
    using eq [OF that] settled_when_waiting(1) [OF assms(1,2) that] by simp
  have settled: "\<forall>d \<in> set ?ds. prev d = curr d"
    using st len by (simp add: all_set_conv_all_nth length_separateWait)
  then have ticks: "map (tick now (valueLast ?s < ?v)) (digits ?s) = map (Pair False) ?ds"
    by (simp add: tick_idle cong: map_cong)
  have an: "animate now ?v ?s = (True, [], ?s\<lparr>valueLast := ?v, state := ST_WAIT\<rparr>)"
    unfolding animate_def ticks using settled
    by (simp add: Let_def comp_def list_ex_iff list_all_iff)
  from assms(2) False have "displayValue now v s = animate now ?v ?s"
    by (rule poll_WAIT_new)
  with an eq show ?thesis by (simp add: poll_def)
qed

section \<open>Values that change while a roll is under way\<close>

text \<open>
  C1. The direction is not fixed for a change: \<^verbatim>\<open>value > valueLast\<close> is evaluated anew
  for every frame, on the value of the current call. In \<open>run_flip\<close> the roll of slot 0
  from 9 to 0 has rendered its frame at index 4 upwards when the value drops back to
  12345679; the next frame of the same roll, at index 5, is rendered downwards. In
  \<open>run_down\<close> the value goes from 12345678 to 12345677, yet \<^verbatim>\<open>valueLast\<close> is still 0
  after the first two calls (the first call does not store the value, the second
  stores what the digit loop has left of it), and the frame at index 1 is rendered
  upwards.
\<close>

theorem direction_changes_within_a_roll:
  "state (polls (butlast run_flip) fsm_init) = ST_ANIM
   \<and> valueLast (polls (butlast run_flip) fsm_init) = 12345679
   \<and> prev (digits (polls (butlast run_flip) fsm_init) ! 0) = 9
   \<and> curr (digits (polls (butlast run_flip) fsm_init) ! 0) = 0
   \<and> charMap (digits (polls (butlast run_flip) fsm_init) ! 0) = blendUp 9 0 4
   \<and> prev (digits (polls run_flip fsm_init) ! 0) = 9
   \<and> curr (digits (polls run_flip fsm_init) ! 0) = 0
   \<and> charMap (digits (polls run_flip fsm_init) ! 0) = blendDown 9 0 5
   \<and> blendDown 9 0 5 \<noteq> blendUp 9 0 5
   \<and> state (polls (take 2 run_down) fsm_init) = ST_WAIT
   \<and> valueLast (polls (take 2 run_down) fsm_init) = 0
   \<and> map curr (digits (polls (take 2 run_down) fsm_init)) = [8, 7, 6, 5, 4, 3, 2, 1]
   \<and> valueLast (polls run_down fsm_init) = 0
   \<and> prev (digits (polls run_down fsm_init) ! 0) = 8
   \<and> curr (digits (polls run_down fsm_init) ! 0) = 7
   \<and> charMap (digits (polls run_down fsm_init) ! 0) = blendUp 8 7 1
   \<and> blendUp 8 7 1 \<noteq> blendDown 8 7 1"
  by code_simp

text \<open>
  C2. A value that arrives during a roll is recorded as settled without being shown.
  In \<open>run_retarget\<close> the roll towards 12345679 ends in a call that carries 12345680:
  \<^verbatim>\<open>valueLast\<close> becomes 12345680 while the slots hold the digits and glyphs of
  12345679, and the next call with 12345680 finds nothing to do.
\<close>

theorem late_value_recorded_not_shown:
  "state (polls run_retarget fsm_init) = ST_WAIT
   \<and> valueLast (polls run_retarget fsm_init) = 12345680
   \<and> map curr (digits (polls run_retarget fsm_init)) = [9, 7, 6, 5, 4, 3, 2, 1]
   \<and> map charMap (digits (polls run_retarget fsm_init))
        = map (\<lambda>n. digitsMap ! n) [9, 7, 6, 5, 4, 3, 2, 1]
   \<and> displayValue 1600 12345680 (polls run_retarget fsm_init)
        = (True, [], polls run_retarget fsm_init)"
  by code_simp

end
